theory Spec2Isabelle
  imports Complex_Main
begin

unbundle bit_operations_syntax

section \<open>The custom device of circuit.py\<close>

text \<open>
  The development embeds \<^verbatim>\<open>catalyst/runtime/lib/backend/custom_device/circuit.py\<close>.
  Amplitudes are numpy \<^verbatim>\<open>complex128\<close> values; they are modelled by exact complex
  numbers, so every statement below is about the arithmetic over the reals that the
  floating-point code approximates. Python integers are \<open>int\<close>; loop counters of
  \<^verbatim>\<open>range\<close> and array indices, which are never negative here, are \<open>nat\<close>.
  The messages written by \<^verbatim>\<open>print\<close> are not modelled.
\<close>

subsection \<open>Arrays in a store\<close>

text \<open>
  A numpy array is a mutable object. The store is the list of all arrays allocated so
  far, and the address of an array is its position in that list. Allocation appends,
  so a new array never has the address of an existing one.
\<close>

datatype error = ValueError | IndexError

type_synonym addr = nat
type_synonym store = "complex list list"

definition alloc :: "store \<Rightarrow> complex list \<Rightarrow> store \<times> addr" where
  "alloc s xs = (s @ [xs], length s)"

text \<open>\<^verbatim>\<open>a[i]\<close> for an index \<open>i \<ge> 0\<close>: numpy raises IndexError out of range.\<close>

definition getitem :: "store \<Rightarrow> addr \<Rightarrow> nat \<Rightarrow> error + complex" where
  "getitem s r i = (if i < length (s ! r) then Inr (s ! r ! i) else Inl IndexError)"

text \<open>\<^verbatim>\<open>a[i] = v\<close> for an index \<open>i \<ge> 0\<close>: the array at address \<open>r\<close> is updated in place.\<close>

definition setitem :: "store \<Rightarrow> addr \<Rightarrow> nat \<Rightarrow> complex \<Rightarrow> error + store" where
  "setitem s r i v =
     (if i < length (s ! r) then Inr (s[r := (s ! r)[i := v]]) else Inl IndexError)"

subsection \<open>The software path\<close>

text \<open>\<^verbatim>\<open>sqrt2_inv = 1.0 / np.sqrt(2.0)\<close>\<close>

definition sqrt2_inv :: complex where
  "sqrt2_inv = complex_of_real (1 / sqrt 2)"

text \<open>
  One iteration of the loop of \<^verbatim>\<open>_apply_hadamard_python\<close> (lines 123 to 129), on
  the array at address \<open>result\<close>. \<^verbatim>\<open>1 << target_qubit\<close> raises ValueError for a
  negative shift count. Both reads come before both writes.
\<close>

definition hadamard_iter :: "addr \<Rightarrow> int \<Rightarrow> nat \<Rightarrow> store \<Rightarrow> store \<times> (error + unit)" where
  "hadamard_iter result target_qubit i s =
     (if target_qubit < 0 then (s, Inl ValueError)
      else
        let idx0 = i;
            idx1 = i XOR push_bit (nat target_qubit) 1
        in if idx0 < idx1 then
             (case getitem s result idx0 of
                Inl e \<Rightarrow> (s, Inl e)
              | Inr temp0 \<Rightarrow>
                 (case getitem s result idx1 of
                    Inl e \<Rightarrow> (s, Inl e)
                  | Inr temp1 \<Rightarrow>
                     (case setitem s result idx0 (sqrt2_inv * (temp0 + temp1)) of
                        Inl e \<Rightarrow> (s, Inl e)
                      | Inr s1 \<Rightarrow>
                         (case setitem s1 result idx1 (sqrt2_inv * (temp0 - temp1)) of
                            Inl e \<Rightarrow> (s1, Inl e)
                          | Inr s2 \<Rightarrow> (s2, Inr ())))))
           else (s, Inr ()))"

text \<open>\<^verbatim>\<open>for i in range(dim)\<close>: the iterations in order, stopping at the first exception.\<close>

fun hadamard_loop :: "addr \<Rightarrow> int \<Rightarrow> nat list \<Rightarrow> store \<Rightarrow> store \<times> (error + unit)" where
  "hadamard_loop result target_qubit [] s = (s, Inr ())"
| "hadamard_loop result target_qubit (i # is) s =
     (case hadamard_iter result target_qubit i s of
        (s', Inl e) \<Rightarrow> (s', Inl e)
      | (s', Inr _) \<Rightarrow> hadamard_loop result target_qubit is s')"

text \<open>
  \<^verbatim>\<open>_apply_hadamard_python(self, state, target_qubit, num_qubits)\<close>, lines 116 to 131.
  \<open>state\<close> is the address of the caller's array; \<^verbatim>\<open>state.copy()\<close> allocates.
  \<^verbatim>\<open>1 << num_qubits\<close> raises ValueError for a negative count. The function returns
  the store it leaves and either the exception or the address of the array it returns.
\<close>

definition apply_hadamard_python :: "store \<Rightarrow> addr \<Rightarrow> int \<Rightarrow> int \<Rightarrow> store \<times> (error + addr)" where
  "apply_hadamard_python s state target_qubit num_qubits =
     (case alloc s (s ! state) of
        (s1, result) \<Rightarrow>
          if num_qubits < 0 then (s1, Inl ValueError)
          else
            let dim = push_bit (nat num_qubits) (1::nat)
            in (case hadamard_loop result target_qubit [0..<dim] s1 of
                  (s2, Inl e) \<Rightarrow> (s2, Inl e)
                | (s2, Inr _) \<Rightarrow> (s2, Inr result)))"

subsection \<open>The device and the accelerated path\<close>

text \<open>
  The shared library is foreign code. Its entry point \<^verbatim>\<open>hadamard_kernel_execute_c\<close>
  is a parameter of the model: it receives the arguments of the call in the order of the
  ABI (bitstream path, input real parts, input imaginary parts, the two output buffers,
  target, qubit count, state size) and either raises at the call boundary or returns a
  status together with the contents it left in the two output buffers. It is given
  copies of the amplitudes only, never the caller's array.
\<close>

datatype kernel_outcome = Raised | Returned int "real list" "real list"

type_synonym kernel =
  "string \<Rightarrow> real list \<Rightarrow> real list \<Rightarrow> real list \<Rightarrow> real list \<Rightarrow> int \<Rightarrow> int \<Rightarrow> int \<Rightarrow> kernel_outcome"

record device =
  wires :: "nat list option"
  xclbin_path :: string
  use_fpga :: bool
  cpp_lib :: "kernel option"

text \<open>
  \<^verbatim>\<open>_load_cpp_library\<close>, lines 32 to 51. \<open>file_exists\<close> is the file system at the
  time of the call, \<open>so_path\<close> the path computed from the module's location and
  \<open>cdll\<close> the loader followed by \<^verbatim>\<open>_setup_function_signatures\<close>; \<open>None\<close> from
  \<open>cdll\<close> stands for an exception, which the function catches.
\<close>

definition load_cpp_library ::
  "(string \<Rightarrow> bool) \<Rightarrow> string \<Rightarrow> (string \<Rightarrow> kernel option) \<Rightarrow> kernel option" where
  "load_cpp_library file_exists so_path cdll =
     (if \<not> file_exists so_path then None else cdll so_path)"

text \<open>
  \<^verbatim>\<open>__init__(self, shots=None, wires=None, xclbin_path=None, use_fpga=True)\<close>, lines 18
  to 30. \<^verbatim>\<open>xclbin_path or "libadf.xclbin"\<close> takes the default for \<^verbatim>\<open>None\<close> and for
  the empty string. \<open>shots\<close> only goes to the base class and is left out.
\<close>

definition init ::
  "(string \<Rightarrow> bool) \<Rightarrow> string \<Rightarrow> (string \<Rightarrow> kernel option) \<Rightarrow>
   nat list option \<Rightarrow> string option \<Rightarrow> bool \<Rightarrow> device" where
  "init file_exists so_path cdll wires_arg xclbin_path_arg use_fpga_arg =
     (let path = (case xclbin_path_arg of
                    None \<Rightarrow> ''libadf.xclbin''
                  | Some p \<Rightarrow> if p = [] then ''libadf.xclbin'' else p);
          fpga = (if use_fpga_arg \<and> \<not> file_exists path then False else use_fpga_arg)
      in \<lparr> wires = wires_arg, xclbin_path = path, use_fpga = fpga,
           cpp_lib = load_cpp_library file_exists so_path cdll \<rparr>)"

text \<open>
  \<^verbatim>\<open>_apply_hadamard_cpp(self, state, target_qubit, num_qubits)\<close>, lines 71 to 114.
  The ctypes buffers are local to the call; \<open>kernel_call\<close> is lines 78 to 100, the
  copy of the real and imaginary parts into the input buffers and the call itself.
  The fallback after a nonzero status (line 110) is inside the \<^verbatim>\<open>try\<close> block: an
  exception of the software path there is caught at line 112, and the software path
  runs once more at line 114, outside the block.
\<close>

definition kernel_call :: "kernel \<Rightarrow> device \<Rightarrow> complex list \<Rightarrow> int \<Rightarrow> int \<Rightarrow> kernel_outcome" where
  "kernel_call hadamard_kernel_execute_c dev amps target_qubit num_qubits =
     (let state_size = length amps;
          input_real = map Re amps;
          input_imag = map Im amps;
          output_real = replicate state_size 0;
          output_imag = replicate state_size 0
      in hadamard_kernel_execute_c (xclbin_path dev) input_real input_imag
           output_real output_imag target_qubit num_qubits (int state_size))"

definition apply_hadamard_cpp ::
  "device \<Rightarrow> store \<Rightarrow> addr \<Rightarrow> int \<Rightarrow> int \<Rightarrow> store \<times> (error + addr)" where
  "apply_hadamard_cpp dev s state target_qubit num_qubits =
     (case cpp_lib dev of
        None \<Rightarrow> apply_hadamard_python s state target_qubit num_qubits
      | Some hadamard_kernel_execute_c \<Rightarrow>
          (case kernel_call hadamard_kernel_execute_c dev (s ! state) target_qubit num_qubits of
             Raised \<Rightarrow> apply_hadamard_python s state target_qubit num_qubits
           | Returned status out_real out_imag \<Rightarrow>
               if status = 0 then
                 (case alloc s (map (\<lambda>i. Complex (out_real ! i) (out_imag ! i))
                                    [0..<length (s ! state)]) of
                    (s1, r) \<Rightarrow> (s1, Inr r))
               else
                 (case apply_hadamard_python s state target_qubit num_qubits of
                    (s1, Inl e) \<Rightarrow> apply_hadamard_python s1 state target_qubit num_qubits
                  | (s1, Inr r) \<Rightarrow> (s1, Inr r))))"

subsection \<open>Circuit execution\<close>

text \<open>
  \<^verbatim>\<open>execute\<close>, lines 141 to 162. The argument \<^verbatim>\<open>circuits\<close> is not read by the
  code. \<^verbatim>\<open>len(self.wires) if self.wires else 1\<close> is 1 when there are no wires.
\<close>

fun execute_loop ::
  "device \<Rightarrow> int \<Rightarrow> nat list \<Rightarrow> store \<Rightarrow> addr \<Rightarrow> store \<times> (error + addr)" where
  "execute_loop dev num_qubits [] s state = (s, Inr state)"
| "execute_loop dev num_qubits (qubit # qs) s state =
     (case apply_hadamard_cpp dev s state (int qubit) num_qubits of
        (s', Inl e) \<Rightarrow> (s', Inl e)
      | (s', Inr state') \<Rightarrow> execute_loop dev num_qubits qs s' state')"

definition num_qubits_of :: "device \<Rightarrow> nat" where
  "num_qubits_of dev =
     (case wires dev of None \<Rightarrow> 1 | Some ws \<Rightarrow> if ws = [] then 1 else length ws)"

definition execute :: "device \<Rightarrow> store \<Rightarrow> store \<times> (error + addr)" where
  "execute dev s =
     (let num_qubits = num_qubits_of dev;
          state_size = (2::nat) ^ num_qubits
      in (case alloc s (replicate state_size 0) of
            (s1, state) \<Rightarrow>
              (case setitem s1 state 0 1 of
                 Inl e \<Rightarrow> (s1, Inl e)
               | Inr s2 \<Rightarrow> execute_loop dev (int num_qubits) [0..<num_qubits] s2 state)))"

text \<open>What a caller sees of a call: the exception, or the contents of the returned array.\<close>

definition outcome :: "store \<times> (error + addr) \<Rightarrow> error + complex list" where
  "outcome p = (case p of (s, Inl e) \<Rightarrow> Inl e | (s, Inr r) \<Rightarrow> Inr (s ! r))"

subsection \<open>The loop on the contents of the result array\<close>

text \<open>
  The loop only touches the array \<open>result\<close>. The two functions below are the
  iteration and the loop on the contents of that array alone; they are shown further
  down to agree with \<open>hadamard_iter\<close> and \<open>hadamard_loop\<close> on the store.
\<close>

definition iter_buf :: "int \<Rightarrow> nat \<Rightarrow> complex list \<Rightarrow> complex list \<times> (error + unit)" where
  "iter_buf t i b =
     (if t < 0 then (b, Inl ValueError)
      else let j = i XOR 2 ^ nat t
           in if i < j then
                (if j < length b
                 then (b[i := sqrt2_inv * (b ! i + b ! j), j := sqrt2_inv * (b ! i - b ! j)], Inr ())
                 else (b, Inl IndexError))
              else (b, Inr ()))"

fun loop_buf :: "int \<Rightarrow> nat list \<Rightarrow> complex list \<Rightarrow> complex list \<times> (error + unit)" where
  "loop_buf t [] b = (b, Inr ())"
| "loop_buf t (i # is) b =
     (case iter_buf t i b of
        (b', Inl e) \<Rightarrow> (b', Inl e)
      | (b', Inr _) \<Rightarrow> loop_buf t is b')"

text \<open>
  The closed form of the result. \<open>pair_low t k\<close> is the smaller index of the pair
  of \<open>k\<close>, \<open>hval t b k\<close> the new amplitude at \<open>k\<close>, \<open>partial_h t m b\<close> the
  array after the iterations \<open>0, \<dots>, m - 1\<close>, and \<open>hmap t b\<close> the final array.
\<close>

definition pair_low :: "nat \<Rightarrow> nat \<Rightarrow> nat" where
  "pair_low t k = (if bit k t then k - 2 ^ t else k)"

definition hval :: "nat \<Rightarrow> complex list \<Rightarrow> nat \<Rightarrow> complex" where
  "hval t b k =
     (if bit k t then sqrt2_inv * (b ! (k - 2 ^ t) - b ! k)
      else sqrt2_inv * (b ! k + b ! (k + 2 ^ t)))"

definition partial_h :: "nat \<Rightarrow> nat \<Rightarrow> complex list \<Rightarrow> complex list" where
  "partial_h t m b = map (\<lambda>k. if pair_low t k < m then hval t b k else b ! k) [0..<length b]"

definition hmap :: "nat \<Rightarrow> complex list \<Rightarrow> complex list" where
  "hmap t b = map (hval t b) [0..<length b]"

subsection \<open>The update as the specification words it\<close>

text \<open>
  The pair algorithm of the specification: for each index \<open>i\<close> of \<open>[0, dim)\<close>
  with bit \<open>targetQubit\<close> clear and \<open>j = i | bit\<close>, \<open>newAmp[i]\<close> and
  \<open>newAmp[j]\<close> are set from the old amplitudes \<open>amp[i]\<close> and \<open>amp[j]\<close>.
\<close>

definition spec_pair_step :: "complex list \<Rightarrow> nat \<Rightarrow> complex list \<Rightarrow> nat \<Rightarrow> complex list" where
  "spec_pair_step amp targetQubit newAmp i =
     (let j = i OR push_bit targetQubit 1
      in newAmp[i := sqrt2_inv * (amp ! i + amp ! j), j := sqrt2_inv * (amp ! i - amp ! j)])"

definition spec_hadamard :: "complex list \<Rightarrow> nat \<Rightarrow> nat \<Rightarrow> complex list" where
  "spec_hadamard amp targetQubit qubitCount =
     foldl (spec_pair_step amp targetQubit) amp
       (filter (\<lambda>i. \<not> bit i targetQubit) [0..<2 ^ qubitCount])"

text \<open>
  The indices assigned at lines 128 and 129, in the order of the assignments, over the
  iterations \<open>0, \<dots>, n_iter - 1\<close> of a run that raises no exception.
\<close>

definition written :: "nat \<Rightarrow> nat \<Rightarrow> nat list" where
  "written t n_iter =
     concat (map (\<lambda>i. let idx1 = i XOR push_bit t 1 in if i < idx1 then [i, idx1] else [])
                 [0..<n_iter])"

subsection \<open>Observations and example inputs\<close>

text \<open>
  What the software path yields for given contents of the input array: the exception,
  or the contents of the returned array.
\<close>

definition hadamard_result :: "complex list \<Rightarrow> int \<Rightarrow> int \<Rightarrow> error + complex list" where
  "hadamard_result amps t n =
     (if n < 0 then Inl ValueError
      else case loop_buf t [0..<2 ^ nat n] amps of
             (b, Inl e) \<Rightarrow> Inl e
           | (b, Inr _) \<Rightarrow> Inr b)"

text \<open>
  The accelerated call failed: the call boundary raised, or the status is not 0
  (the negation of the test at line 102).
\<close>

definition kernel_failed :: "kernel_outcome \<Rightarrow> bool" where
  "kernel_failed out = (case out of Raised \<Rightarrow> True | Returned status _ _ \<Rightarrow> status \<noteq> 0)"

text \<open>
  Example inputs for the closed instances below: a kernel that leaves the output buffers
  as it got them and returns the given status, and a device with two wires.
\<close>

definition status_kernel :: "int \<Rightarrow> kernel" where
  "status_kernel status = (\<lambda>path input_real input_imag output_real output_imag target n size.
      Returned status output_real output_imag)"

definition example_device :: "kernel option \<Rightarrow> device" where
  "example_device lib =
     \<lparr> wires = Some [0, 1], xclbin_path = ''libadf.xclbin'', use_fpga = True, cpp_lib = lib \<rparr>"

text \<open>The sum of the squared magnitudes of the amplitudes.\<close>

definition norm_sq :: "complex list \<Rightarrow> real" where
  "norm_sq b = sum_list (map (\<lambda>z. (cmod z)\<^sup>2) b)"

text \<open>
  The kernel of the device, if one is loaded, conforms to the update: whenever it
  reports success on a state of length \<open>2 ^ n\<close> and a target \<open>t < n\<close>, its output
  buffers hold the result of the update (the parity property of the specification).
  A device without a library and a device whose kernel always fails conform.
\<close>

definition kernel_conforms :: "device \<Rightarrow> bool" where
  "kernel_conforms dev =
     (case cpp_lib dev of
        None \<Rightarrow> True
      | Some f \<Rightarrow>
          \<forall>amps t n. length amps = 2 ^ n \<and> t < n \<longrightarrow>
            (case kernel_call f dev amps (int t) (int n) of
               Raised \<Rightarrow> True
             | Returned status out_real out_imag \<Rightarrow>
                 status = 0 \<longrightarrow>
                   map (\<lambda>i. Complex (out_real ! i) (out_imag ! i)) [0..<length amps]
                     = hmap t amps))"

text \<open>
  The state of \<open>n\<close> qubits after the update on the qubits \<open>0, \<dots>, k - 1\<close> of
  the basis state: the first \<open>2 ^ k\<close> amplitudes are \<open>sqrt2_inv ^ k\<close>, the others 0.
\<close>

definition uniform_prefix :: "nat \<Rightarrow> nat \<Rightarrow> complex list" where
  "uniform_prefix n k = map (\<lambda>i. if i < 2 ^ k then sqrt2_inv ^ k else 0) [0..<2 ^ n]"

subsection \<open>The lifetime of a device\<close>

text \<open>
  A session holds the file system as it is now, the device object, the store, and the
  results of the calls made so far. After construction the file system may change
  (a file appears or disappears) and the methods of the device may be called, in any
  order. No method assigns an attribute of the device or looks a file up, so a call
  only changes the store and adds its result. What the foreign kernel does with the
  path it is given is outside the model.
\<close>

record session =
  ses_files :: "string \<Rightarrow> bool"
  ses_device :: device
  ses_heap :: store
  ses_results :: "(error + addr) list"

datatype event =
    FileCreated string
  | FileRemoved string
  | CallExecute
  | CallHadamardCpp addr int int
  | CallHadamardPython addr int int

definition record_call :: "session \<Rightarrow> store \<times> (error + addr) \<Rightarrow> session" where
  "record_call w p = w\<lparr>ses_heap := fst p, ses_results := ses_results w @ [snd p]\<rparr>"

fun step :: "session \<Rightarrow> event \<Rightarrow> session" where
  "step w (FileCreated p) = w\<lparr>ses_files := (ses_files w)(p := True)\<rparr>"
| "step w (FileRemoved p) = w\<lparr>ses_files := (ses_files w)(p := False)\<rparr>"
| "step w CallExecute = record_call w (execute (ses_device w) (ses_heap w))"
| "step w (CallHadamardCpp state t n) =
     record_call w (apply_hadamard_cpp (ses_device w) (ses_heap w) state t n)"
| "step w (CallHadamardPython state t n) =
     record_call w (apply_hadamard_python (ses_heap w) state t n)"






section \<open>Bit arithmetic of the pairing\<close>

lemma xor_clear: "\<not> bit (i::nat) t \<Longrightarrow> i XOR 2 ^ t = i + 2 ^ t"
proof -
  assume h: "\<not> bit i t"
  have "i XOR 2 ^ t = flip_bit t i" by (simp add: flip_bit_eq_xor)
  also have "\<dots> = set_bit t i" using h by (simp add: flip_bit_eq_if)
  also have "\<dots> = i + 2 ^ t" using h by (simp add: set_bit_eq)
  finally show ?thesis .
qed

lemma bit_xor_exp: "bit ((i::nat) XOR 2 ^ t) t \<longleftrightarrow> \<not> bit i t"
  by (simp add: bit_xor_iff bit_exp_iff)

lemma bit_xor_exp_other: "u \<noteq> t \<Longrightarrow> bit ((i::nat) XOR 2 ^ t) u \<longleftrightarrow> bit i u"
  by (auto simp add: bit_xor_iff bit_exp_iff)

lemma xor_exp_twice: "((i::nat) XOR 2 ^ t) XOR 2 ^ t = i"
  by (simp add: xor.assoc)

lemma xor_set_add: "bit (i::nat) t \<Longrightarrow> (i XOR 2 ^ t) + 2 ^ t = i"
  using xor_clear [of "i XOR 2 ^ t" t] by (simp add: bit_xor_exp xor_exp_twice)

lemma xor_set: "bit (i::nat) t \<Longrightarrow> i XOR 2 ^ t = i - 2 ^ t"
  using xor_set_add [of i t] by arith

lemma bit_ge: "bit (i::nat) t \<Longrightarrow> 2 ^ t \<le> i"
  using xor_set_add [of i t] by arith

lemma bit_add: "\<not> bit (i::nat) t \<Longrightarrow> bit (i + 2 ^ t) t"
  using xor_clear [of i t] bit_xor_exp [of i t] by simp

lemma bit_sub: "bit (i::nat) t \<Longrightarrow> \<not> bit (i - 2 ^ t) t"
  using xor_set [of i t] bit_xor_exp [of i t] by simp

lemma xor_bound: "i < 2 ^ n \<Longrightarrow> t < n \<Longrightarrow> (i::nat) XOR 2 ^ t < 2 ^ n"
proof -
  assume a: "i < 2 ^ n" "t < n"
  have "take_bit n (i XOR 2 ^ t) = i XOR 2 ^ t"
    using a by (simp add: take_bit_nat_eq_self)
  then have "i XOR 2 ^ t = take_bit n (i XOR 2 ^ t)" by (rule sym)
  also have "\<dots> < 2 ^ n" by (rule take_bit_nat_less_exp)
  finally show ?thesis .
qed

lemma add_bound: "i < 2 ^ n \<Longrightarrow> t < n \<Longrightarrow> \<not> bit (i::nat) t \<Longrightarrow> i + 2 ^ t < 2 ^ n"
  using xor_bound [of i n t] xor_clear [of i t] by simp

lemma xor_less_iff: "(i::nat) < i XOR 2 ^ t \<longleftrightarrow> \<not> bit i t"
proof (cases "bit i t")
  case True
  then show ?thesis using xor_set_add [of i t] by simp
next
  case False
  then show ?thesis using xor_clear [of i t] by simp
qed

lemma or_clear: "\<not> bit (i::nat) t \<Longrightarrow> i OR 2 ^ t = i + 2 ^ t"
proof -
  assume h: "\<not> bit i t"
  have "i OR 2 ^ t = set_bit t i" by (simp add: set_bit_eq_or)
  also have "\<dots> = i + 2 ^ t" using h by (simp add: set_bit_eq)
  finally show ?thesis .
qed

section \<open>The store-level loop and the loop on the array contents\<close>

lemma hadamard_iter_buf:
  assumes "r < length s"
  shows "hadamard_iter r t i s = (case iter_buf t i (s ! r) of (b, res) \<Rightarrow> (s[r := b], res))"
  using assms
  by (auto simp: hadamard_iter_def iter_buf_def getitem_def setitem_def Let_def list_update_swap)

lemma hadamard_loop_buf:
  assumes "r < length s"
  shows "hadamard_loop r t is s = (case loop_buf t is (s ! r) of (b, res) \<Rightarrow> (s[r := b], res))"
  using assms
proof (induction "is" arbitrary: s)
  case Nil
  then show ?case by simp
next
  case (Cons i "is")
  obtain b res where ib: "iter_buf t i (s ! r) = (b, res)" by (cases "iter_buf t i (s ! r)")
  show ?case
  proof (cases res)
    case (Inl e)
    with ib Cons.prems show ?thesis by (simp add: hadamard_iter_buf)
  next
    case (Inr u)
    with ib Cons.prems Cons.IH [of "s[r := b]"] show ?thesis
      by (simp add: hadamard_iter_buf)
  qed
qed

lemma python_buf:
  "apply_hadamard_python s a t n =
     (if n < 0 then (s @ [s ! a], Inl ValueError)
      else case loop_buf t [0..<2 ^ nat n] (s ! a) of
             (b, Inl e) \<Rightarrow> (s @ [b], Inl e)
           | (b, Inr _) \<Rightarrow> (s @ [b], Inr (length s)))"
  by (auto simp: apply_hadamard_python_def alloc_def hadamard_loop_buf split: prod.splits sum.splits)

section \<open>The closed form of the software path\<close>

lemma pair_low_clear: "\<not> bit (pair_low t k) t"
  by (simp add: pair_low_def bit_sub)

lemma pair_low_le: "pair_low t k \<le> k"
  by (simp add: pair_low_def)

lemma pair_low_eq: "pair_low t k = m \<Longrightarrow> k = m \<or> k = m + 2 ^ t"
  using bit_ge [of k t] by (auto simp: pair_low_def split: if_splits)

lemma length_partial_h [simp]: "length (partial_h t m b) = length b"
  by (simp add: partial_h_def)

lemma partial_h_0: "partial_h t 0 b = b"
  by (simp add: partial_h_def map_nth)

lemma nth_partial_h:
  "k < length b \<Longrightarrow> partial_h t m b ! k = (if pair_low t k < m then hval t b k else b ! k)"
  by (simp add: partial_h_def)

lemma partial_h_Suc_set: "bit m t \<Longrightarrow> partial_h t (Suc m) b = partial_h t m b"
  unfolding partial_h_def
proof (rule map_cong [OF refl])
  fix k
  assume "bit m t"
  then have "pair_low t k \<noteq> m" using pair_low_clear [of t k] by auto
  then show "(if pair_low t k < Suc m then hval t b k else b ! k) =
             (if pair_low t k < m then hval t b k else b ! k)"
    by (simp add: less_Suc_eq)
qed

lemma partial_h_Suc_clear:
  assumes "\<not> bit m t" and j: "m + 2 ^ t < length b"
  shows "partial_h t (Suc m) b =
         (partial_h t m b)[m := sqrt2_inv * (b ! m + b ! (m + 2 ^ t)),
                           m + 2 ^ t := sqrt2_inv * (b ! m - b ! (m + 2 ^ t))]"
    (is "?R = ?L")
proof (rule nth_equalityI)
  show "length ?R = length ?L" by simp
next
  fix k
  assume "k < length ?R"
  then have k: "k < length b" by simp
  let ?j = "m + 2 ^ t"
  have bj: "bit ?j t" using assms(1) by (rule bit_add)
  have plm: "pair_low t m = m" using assms(1) by (simp add: pair_low_def)
  have plj: "pair_low t ?j = m" using bj by (simp add: pair_low_def)
  consider "k = ?j" | "k = m" | "k \<noteq> ?j" "k \<noteq> m" by blast
  then show "?R ! k = ?L ! k"
  proof cases
    case 1
    then show ?thesis using k bj by (simp add: nth_partial_h plj hval_def)
  next
    case 2
    then show ?thesis using k assms(1) by (simp add: nth_partial_h plm hval_def)
  next
    case 3
    then have "pair_low t k \<noteq> m" using pair_low_eq [of t k m] by blast
    then show ?thesis using 3 k by (simp add: nth_partial_h less_Suc_eq)
  qed
qed

lemma iter_buf_partial:
  assumes len: "length b = 2 ^ n" and t: "t < n" and m: "m < 2 ^ n"
  shows "iter_buf (int t) m (partial_h t m b) = (partial_h t (Suc m) b, Inr ())"
proof (cases "bit m t")
  case True
  moreover have "\<not> m < m XOR 2 ^ t" using True by (simp add: xor_less_iff)
  ultimately show ?thesis by (simp add: iter_buf_def partial_h_Suc_set)
next
  case False
  let ?j = "m + 2 ^ t"
  have j: "?j < 2 ^ n" using add_bound [OF m t False] .
  have x: "m XOR 2 ^ t = ?j" using False by (rule xor_clear)
  have plm: "pair_low t m = m" using False by (simp add: pair_low_def)
  have plj: "pair_low t ?j = m" using bit_add [OF False] by (simp add: pair_low_def)
  have Pm: "partial_h t m b ! m = b ! m" using m len by (simp add: nth_partial_h plm)
  have Pj: "partial_h t m b ! ?j = b ! ?j" using j len by (simp add: nth_partial_h plj)
  show ?thesis
    using j len x False by (simp add: iter_buf_def Let_def Pm Pj partial_h_Suc_clear)
qed

lemma loop_buf_append:
  "loop_buf t (xs @ ys) b =
     (case loop_buf t xs b of (b', Inl e) \<Rightarrow> (b', Inl e) | (b', Inr _) \<Rightarrow> loop_buf t ys b')"
  by (induction xs arbitrary: b) (auto split: prod.splits sum.splits)

lemma loop_buf_partial:
  assumes len: "length b = 2 ^ n" and t: "t < n"
  shows "m \<le> 2 ^ n \<Longrightarrow> loop_buf (int t) [0..<m] b = (partial_h t m b, Inr ())"
proof (induction m)
  case 0
  then show ?case by (simp add: partial_h_0)
next
  case (Suc m)
  then have "m < 2 ^ n" by simp
  with Suc iter_buf_partial [OF len t, of m] show ?case
    by (simp add: loop_buf_append)
qed

lemma partial_h_full: "length b \<le> m \<Longrightarrow> partial_h t m b = hmap t b"
  unfolding partial_h_def hmap_def
proof (rule map_cong [OF refl])
  fix k
  assume "length b \<le> m" "k \<in> set [0..<length b]"
  then have "pair_low t k < m" using pair_low_le [of t k] by simp
  then show "(if pair_low t k < m then hval t b k else b ! k) = hval t b k" by simp
qed

lemma loop_buf_hmap:
  assumes "length b = 2 ^ n" "t < n"
  shows "loop_buf (int t) [0..<2 ^ n] b = (hmap t b, Inr ())"
  using loop_buf_partial [OF assms, of "2 ^ n"] assms by (simp add: partial_h_full)

lemma python_hmap:
  assumes "length (s ! a) = 2 ^ n" "t < n"
  shows "apply_hadamard_python s a (int t) (int n) = (s @ [hmap t (s ! a)], Inr (length s))"
  using loop_buf_hmap [OF assms] by (simp add: python_buf)

section \<open>The software path computes the pair algorithm\<close>

lemma spec_fold_partial:
  assumes len: "length b = 2 ^ n" and t: "t < n"
  shows "m \<le> 2 ^ n \<Longrightarrow>
         foldl (spec_pair_step b t) b (filter (\<lambda>i. \<not> bit i t) [0..<m]) = partial_h t m b"
proof (induction m)
  case 0
  then show ?case by (simp add: partial_h_0)
next
  case (Suc m)
  then have m: "m < 2 ^ n" by simp
  show ?case
  proof (cases "bit m t")
    case True
    with Suc show ?thesis by (simp add: partial_h_Suc_set)
  next
    case False
    have "m + 2 ^ t < length b" using add_bound [OF m t False] len by simp
    with False Suc show ?thesis
      by (simp add: partial_h_Suc_clear spec_pair_step_def or_clear Let_def)
  qed
qed

lemma spec_hadamard_hmap:
  assumes "length b = 2 ^ n" "t < n"
  shows "spec_hadamard b t n = hmap t b"
  using spec_fold_partial [OF assms, of "2 ^ n"] assms
  by (simp add: spec_hadamard_def partial_h_full)

lemma written_Suc:
  "written t (Suc m) = written t m @ (if bit m t then [] else [m, m + 2 ^ t])"
  by (simp add: written_def xor_less_iff xor_clear)

lemma pair_low_set: "bit m t \<Longrightarrow> {k. pair_low t k < Suc m} = {k. pair_low t k < m}"
  using pair_low_clear [of t] by (auto simp: less_Suc_eq)

lemma pair_low_clear_set:
  "\<not> bit m t \<Longrightarrow> {k. pair_low t k < Suc m} = {k. pair_low t k < m} \<union> {m, m + 2 ^ t}"
  using pair_low_eq [of t _ m] bit_add [of m t]
  by (auto simp: less_Suc_eq) (auto simp: pair_low_def)

lemma written_inv: "distinct (written t m) \<and> set (written t m) = {k. pair_low t k < m}"
proof (induction m)
  case 0
  then show ?case by (simp add: written_def)
next
  case (Suc m)
  show ?case
  proof (cases "bit m t")
    case True
    with Suc show ?thesis by (simp add: written_Suc pair_low_set)
  next
    case False
    have "pair_low t m = m" "pair_low t (m + 2 ^ t) = m"
      using False bit_add [of m t] by (simp_all add: pair_low_def)
    with False Suc show ?thesis by (simp add: written_Suc pair_low_clear_set)
  qed
qed

lemma pair_low_less_iff:
  assumes "t < n"
  shows "pair_low t k < 2 ^ n \<longleftrightarrow> k < 2 ^ n"
proof
  assume a: "pair_low t k < 2 ^ n"
  show "k < 2 ^ n"
  proof (cases "bit k t")
    case True
    have "(k - 2 ^ t) + 2 ^ t < 2 ^ n"
      using a True by (intro add_bound assms bit_sub) (simp_all add: pair_low_def)
    then show ?thesis by simp
  next
    case False
    then show ?thesis using a by (simp add: pair_low_def)
  qed
next
  assume "k < 2 ^ n"
  then show "pair_low t k < 2 ^ n" using pair_low_le [of t k] by simp
qed

lemma written_all:
  assumes "t < n"
  shows "distinct (written t (2 ^ n))" and "set (written t (2 ^ n)) = {..<2 ^ n}"
  using written_inv [of t "2 ^ n"] pair_low_less_iff [OF assms] by auto

text \<open>
  C1. For a state of length \<open>2 ^ n\<close> and a target qubit \<open>t < n\<close>, the software path
  returns a new array holding the result of the pair algorithm of the specification:
  for each \<open>i\<close> with bit \<open>t\<close> clear and \<open>j = i OR 2 ^ t\<close>, the amplitude at \<open>i\<close>
  becomes \<open>sqrt2_inv * (amp[i] + amp[j])\<close> and the one at \<open>j\<close> becomes
  \<open>sqrt2_inv * (amp[i] - amp[j])\<close>. The indices the loop assigns are pairwise
  different and are all the indices below \<open>2 ^ n\<close>: every pair is processed once and
  every index is written once.
\<close>

theorem apply_hadamard_python_pairs:
  assumes "length (s ! state) = 2 ^ n" and "t < n"
  shows "apply_hadamard_python s state (int t) (int n)
           = (s @ [spec_hadamard (s ! state) t n], Inr (length s))
         \<and> distinct (written t (2 ^ n)) \<and> set (written t (2 ^ n)) = {..<2 ^ n}"
  using assms by (simp add: python_hmap spec_hadamard_hmap written_all)

theorem apply_hadamard_python_pairs_witness:
  "length ([[1, 0]] ! 0) = 2 ^ 1 \<and> (0::nat) < 1
   \<and> apply_hadamard_python [[1, 0]] 0 (int 0) (int 1)
       = ([[1, 0], [sqrt2_inv, sqrt2_inv]], Inr 1)
   \<and> written 0 (2 ^ 1) = [0, 1]"
  using apply_hadamard_python_pairs [of "[[1, 0]]" 0 1 0]
  by (simp add: spec_hadamard_def spec_pair_step_def written_def upt_rec bit_0)

section \<open>Frame: what the two paths leave in the store\<close>

lemma python_grows:
  "\<exists>b. fst (apply_hadamard_python s a t n) = s @ [b]"
  by (simp add: python_buf split: prod.splits sum.splits)

lemma python_fresh:
  "snd (apply_hadamard_python s a t n) = Inr r \<Longrightarrow> r = length s"
  by (simp add: python_buf split: prod.splits sum.splits if_splits)

lemma outcome_python:
  "outcome (apply_hadamard_python s a t n) = hadamard_result (s ! a) t n"
  by (simp add: python_buf outcome_def hadamard_result_def split: prod.splits sum.splits)

lemma python_cell:
  assumes "a < length s"
  shows "fst (apply_hadamard_python s a t n) ! a = s ! a"
proof -
  obtain b where "fst (apply_hadamard_python s a t n) = s @ [b]"
    using python_grows by blast
  then show ?thesis using assms by (simp add: nth_append)
qed

lemma cpp_grows:
  "\<exists>ext. fst (apply_hadamard_cpp dev s a t n) = s @ ext"
proof (cases "cpp_lib dev")
  case None
  then show ?thesis using python_grows [of s a t n] by (auto simp: apply_hadamard_cpp_def)
next
  case (Some f)
  show ?thesis
  proof (cases "kernel_call f dev (s ! a) t n")
    case Raised
    with Some show ?thesis using python_grows [of s a t n] by (auto simp: apply_hadamard_cpp_def)
  next
    case (Returned status out_real out_imag)
    show ?thesis
    proof (cases "status = 0")
      case True
      with Some Returned show ?thesis by (simp add: apply_hadamard_cpp_def alloc_def)
    next
      case False
      obtain s1 res where p: "apply_hadamard_python s a t n = (s1, res)"
        by (cases "apply_hadamard_python s a t n")
      obtain b where s1: "s1 = s @ [b]" using python_grows [of s a t n] p by auto
      show ?thesis
      proof (cases res)
        case (Inl e)
        obtain b' where "fst (apply_hadamard_python s1 a t n) = s1 @ [b']"
          using python_grows by blast
        with Some Returned False p Inl s1 show ?thesis
          by (simp add: apply_hadamard_cpp_def)
      next
        case (Inr r)
        with Some Returned False p s1 show ?thesis by (simp add: apply_hadamard_cpp_def)
      qed
    qed
  qed
qed

lemma cpp_cell:
  assumes "a < length s"
  shows "fst (apply_hadamard_cpp dev s a t n) ! a = s ! a"
proof -
  obtain ext where "fst (apply_hadamard_cpp dev s a t n) = s @ ext"
    using cpp_grows by blast
  then show ?thesis using assms by (simp add: nth_append)
qed

text \<open>
  C9. The software path is pure with respect to its input: the array at the caller's
  address holds the same elements after the call, and the array that is returned is a
  new one, at an address that was not allocated before the call.
\<close>

theorem apply_hadamard_python_pure:
  assumes "state < length s"
  shows "fst (apply_hadamard_python s state t n) ! state = s ! state
         \<and> (\<forall>r. snd (apply_hadamard_python s state t n) = Inr r \<longrightarrow> r = length s \<and> r \<noteq> state)"
  using assms python_cell [OF assms] python_fresh [of s state t n] by auto

theorem apply_hadamard_python_pure_witness:
  "(0::nat) < length [[1, 0 :: complex]]
   \<and> fst (apply_hadamard_python [[1, 0]] 0 0 1) ! 0 = [1, 0]
   \<and> snd (apply_hadamard_python [[1, 0]] 0 0 1) = Inr 1"
proof -
  have "snd (apply_hadamard_python [[1, 0]] 0 0 1) = Inr 1"
    by (simp add: python_buf iter_buf_def upt_rec)
  then show ?thesis
    using apply_hadamard_python_pure [of 0 "[[1, 0]]" 0 1] by simp
qed

text \<open>
  C8. The accelerated path never changes the array it is given, whatever the kernel
  does: success, a nonzero status, or an exception at the call boundary.
\<close>

theorem apply_hadamard_cpp_frame:
  assumes "state < length s"
  shows "fst (apply_hadamard_cpp dev s state t n) ! state = s ! state"
proof -
  obtain ext where "fst (apply_hadamard_cpp dev s state t n) = s @ ext"
    using cpp_grows by blast
  then show ?thesis using assms by (simp add: nth_append)
qed

theorem apply_hadamard_cpp_frame_witness:
  "(0::nat) < length [[1, 0 :: complex]]
   \<and> fst (apply_hadamard_cpp (example_device (Some (status_kernel 1))) [[1, 0]] 0 0 1) ! 0 = [1, 0]
   \<and> fst (apply_hadamard_cpp (example_device (Some (status_kernel 0))) [[1, 0]] 0 0 1) ! 0 = [1, 0]
   \<and> fst (apply_hadamard_cpp (example_device (Some (\<lambda>_ _ _ _ _ _ _ _. Raised))) [[1, 0]] 0 0 1) ! 0 = [1, 0]"
  using apply_hadamard_cpp_frame [of 0 "[[1, 0]]" "example_device (Some (status_kernel 1))" 0 1]
    apply_hadamard_cpp_frame [of 0 "[[1, 0]]" "example_device (Some (status_kernel 0))" 0 1]
    apply_hadamard_cpp_frame [of 0 "[[1, 0]]" "example_device (Some (\<lambda>_ _ _ _ _ _ _ _. Raised))" 0 1]
  by simp

section \<open>Dispatch and fallback\<close>

lemma cpp_no_lib:
  "cpp_lib dev = None \<Longrightarrow> apply_hadamard_cpp dev s a t n = apply_hadamard_python s a t n"
  by (simp add: apply_hadamard_cpp_def)

lemma python_valid:
  assumes "length (s ! a) = 2 ^ nat n" "0 \<le> t" "t < n"
  shows "apply_hadamard_python s a t n = (s @ [hmap (nat t) (s ! a)], Inr (length s))"
  using python_hmap [of s a "nat n" "nat t"] assms by simp

lemma load_cpp_library_None:
  "cpp_lib (init file_exists so_path cdll w xp u) = None
     \<longleftrightarrow> \<not> file_exists so_path \<or> cdll so_path = None"
  by (simp add: init_def load_cpp_library_def Let_def)

text \<open>
  C10. When the library is not loaded (\<open>cpp_lib\<close> is \<open>None\<close>), the dispatcher is
  the software path, whatever \<open>use_fpga\<close> says, and on a well-formed request it
  returns an array and raises nothing.
\<close>

theorem apply_hadamard_cpp_without_library:
  assumes "cpp_lib dev = None"
  shows "apply_hadamard_cpp (dev\<lparr>use_fpga := fpga\<rparr>) s state t n = apply_hadamard_python s state t n
         \<and> (length (s ! state) = 2 ^ nat n \<and> 0 \<le> t \<and> t < n \<longrightarrow>
              (\<exists>r. snd (apply_hadamard_cpp (dev\<lparr>use_fpga := fpga\<rparr>) s state t n) = Inr r))"
  using assms by (auto simp: apply_hadamard_cpp_def python_valid)

theorem apply_hadamard_cpp_without_library_witness:
  "cpp_lib (example_device None) = None
   \<and> length ([[1, 0 :: complex]] ! 0) = 2 ^ nat 1 \<and> (0::int) \<le> 0 \<and> (0::int) < 1
   \<and> apply_hadamard_cpp ((example_device None)\<lparr>use_fpga := True\<rparr>) [[1, 0]] 0 0 1
       = apply_hadamard_python [[1, 0]] 0 0 1
   \<and> (\<exists>r. snd (apply_hadamard_cpp ((example_device None)\<lparr>use_fpga := True\<rparr>) [[1, 0]] 0 0 1) = Inr r)"
  using apply_hadamard_cpp_without_library
          [where dev = "example_device None" and fpga = True and s = "[[1, 0]]"
             and state = 0 and t = 0 and n = 1]
  by (auto simp: example_device_def)

lemma cpp_failed:
  assumes "cpp_lib dev = Some f" and "kernel_failed (kernel_call f dev (s ! a) t n)"
  shows "apply_hadamard_cpp dev s a t n =
           (case apply_hadamard_python s a t n of
              (s1, Inl e) \<Rightarrow> apply_hadamard_python s1 a t n
            | (s1, Inr r) \<Rightarrow> (s1, Inr r))
         \<or> apply_hadamard_cpp dev s a t n = apply_hadamard_python s a t n"
  using assms
  by (auto simp: apply_hadamard_cpp_def kernel_failed_def split: kernel_outcome.splits)

lemma outcome_cpp_failed:
  assumes lib: "cpp_lib dev = Some f" and fail: "kernel_failed (kernel_call f dev (s ! a) t n)"
    and a: "a < length s"
  shows "outcome (apply_hadamard_cpp dev s a t n) = hadamard_result (s ! a) t n"
proof -
  obtain s1 res where p: "apply_hadamard_python s a t n = (s1, res)"
    by (cases "apply_hadamard_python s a t n")
  have s1: "s1 ! a = s ! a" using python_cell [OF a, of t n] p by simp
  have o: "outcome (s1, res) = hadamard_result (s ! a) t n"
    using outcome_python [of s a t n] p by simp
  from cpp_failed [OF lib fail] show ?thesis
  proof
    assume "apply_hadamard_cpp dev s a t n =
            (case apply_hadamard_python s a t n of
               (s1, Inl e) \<Rightarrow> apply_hadamard_python s1 a t n
             | (s1, Inr r) \<Rightarrow> (s1, Inr r))"
    then show ?thesis
      using p o s1 outcome_python [of s1 a t n] by (cases res) simp_all
  next
    assume "apply_hadamard_cpp dev s a t n = apply_hadamard_python s a t n"
    then show ?thesis using p o by simp
  qed
qed

text \<open>
  C2. When the kernel call raises or returns a nonzero status, the caller sees exactly
  what the software path yields on the same array and target; on a well-formed request
  the two calls agree on the store as well and return an array, so no error reaches the
  caller.
\<close>

theorem fallback_equals_software:
  assumes "cpp_lib dev = Some f" and "kernel_failed (kernel_call f dev (s ! state) t n)"
    and "state < length s"
  shows "outcome (apply_hadamard_cpp dev s state t n) = outcome (apply_hadamard_python s state t n)
         \<and> (length (s ! state) = 2 ^ nat n \<and> 0 \<le> t \<and> t < n \<longrightarrow>
              apply_hadamard_cpp dev s state t n = apply_hadamard_python s state t n
              \<and> (\<exists>r. snd (apply_hadamard_cpp dev s state t n) = Inr r))"
proof -
  have "outcome (apply_hadamard_cpp dev s state t n) = outcome (apply_hadamard_python s state t n)"
    using outcome_cpp_failed [OF assms] by (simp add: outcome_python)
  moreover have "apply_hadamard_cpp dev s state t n = apply_hadamard_python s state t n
                 \<and> (\<exists>r. snd (apply_hadamard_cpp dev s state t n) = Inr r)"
    if "length (s ! state) = 2 ^ nat n" "0 \<le> t" "t < n"
    using cpp_failed [OF assms(1,2)] python_valid [OF that] by auto
  ultimately show ?thesis by blast
qed

theorem fallback_equals_software_witness:
  "cpp_lib (example_device (Some (status_kernel 1))) = Some (status_kernel 1)
   \<and> kernel_failed (kernel_call (status_kernel 1) (example_device (Some (status_kernel 1)))
                                 ([[1, 0]] ! 0) 0 1)
   \<and> (0::nat) < length [[1, 0 :: complex]]
   \<and> length ([[1, 0 :: complex]] ! 0) = 2 ^ nat 1 \<and> (0::int) \<le> 0 \<and> (0::int) < 1
   \<and> apply_hadamard_cpp (example_device (Some (status_kernel 1))) [[1, 0]] 0 0 1
       = apply_hadamard_python [[1, 0]] 0 0 1
   \<and> (\<exists>r. snd (apply_hadamard_cpp (example_device (Some (status_kernel 1))) [[1, 0]] 0 0 1) = Inr r)"
proof -
  have lib: "cpp_lib (example_device (Some (status_kernel 1))) = Some (status_kernel 1)"
    by (simp add: example_device_def)
  have fail: "kernel_failed (kernel_call (status_kernel 1) (example_device (Some (status_kernel 1)))
                                 ([[1, 0]] ! 0) 0 1)"
    by (simp add: kernel_failed_def kernel_call_def status_kernel_def)
  show ?thesis
    using lib fail
      fallback_equals_software [OF lib fail]
    by auto
qed

section \<open>Target qubits out of range\<close>

lemma hadamard_result_out_of_range:
  assumes len: "length b = 2 ^ n" and t: "t < 0 \<or> int n \<le> t"
  shows "hadamard_result b t (int n) = Inl (if t < 0 then ValueError else IndexError)"
proof -
  have u: "[0..<2 ^ n] = 0 # [Suc 0..<2 ^ n]" by (simp add: upt_conv_Cons)
  show ?thesis
  proof (cases "t < 0")
    case True
    then show ?thesis by (simp add: hadamard_result_def u iter_buf_def)
  next
    case False
    with t have "n \<le> nat t" by simp
    then have "(2::nat) ^ n \<le> 2 ^ nat t" by simp
    with False len show ?thesis by (simp add: hadamard_result_def u iter_buf_def)
  qed
qed

text \<open>
  C3, as the claim states it, does not hold: nothing validates the target qubit. With a
  loaded library whose kernel returns status 0, a 2-qubit register and target qubit 5,
  the dispatcher returns an array.
\<close>

theorem out_of_range_target_no_failure:
  "snd (apply_hadamard_cpp (example_device (Some (status_kernel 0))) [[1, 0, 0, 0]] 0 5 2) = Inr 1"
  by (simp add: apply_hadamard_cpp_def example_device_def status_kernel_def kernel_call_def
        alloc_def)

text \<open>
  C3, amended. For a state of length \<open>2 ^ n\<close> and a target outside \<open>[0, n)\<close>, the
  software path raises IndexError when the target is \<open>n\<close> or more and ValueError when
  it is negative, and so does the dispatcher when the library is not loaded or the kernel
  call failed; the caller's array is unchanged.
\<close>

theorem out_of_range_target_software:
  assumes "length (s ! state) = 2 ^ n" and "t < 0 \<or> int n \<le> t" and "state < length s"
  shows "outcome (apply_hadamard_python s state t (int n))
           = Inl (if t < 0 then ValueError else IndexError)
         \<and> fst (apply_hadamard_python s state t (int n)) ! state = s ! state
         \<and> (cpp_lib dev = None
              \<or> (\<exists>f. cpp_lib dev = Some f \<and> kernel_failed (kernel_call f dev (s ! state) t (int n)))
            \<longrightarrow> outcome (apply_hadamard_cpp dev s state t (int n))
                  = Inl (if t < 0 then ValueError else IndexError)
                \<and> fst (apply_hadamard_cpp dev s state t (int n)) ! state = s ! state)"
proof -
  have r: "hadamard_result (s ! state) t (int n) = Inl (if t < 0 then ValueError else IndexError)"
    using assms(1,2) by (rule hadamard_result_out_of_range)
  have "outcome (apply_hadamard_cpp dev s state t (int n))
          = Inl (if t < 0 then ValueError else IndexError)"
    if "cpp_lib dev = None
        \<or> (\<exists>f. cpp_lib dev = Some f \<and> kernel_failed (kernel_call f dev (s ! state) t (int n)))"
    using that
  proof
    assume "cpp_lib dev = None"
    then show ?thesis using r by (simp add: cpp_no_lib outcome_python)
  next
    assume "\<exists>f. cpp_lib dev = Some f \<and> kernel_failed (kernel_call f dev (s ! state) t (int n))"
    then show ?thesis using r outcome_cpp_failed assms(3) by auto
  qed
  then show ?thesis
    using r assms(3) by (simp add: outcome_python python_cell cpp_cell)
qed

theorem out_of_range_target_software_witness:
  "length ([[1, 0, 0, 0 :: complex]] ! 0) = 2 ^ 2 \<and> ((5::int) < 0 \<or> int 2 \<le> 5)
   \<and> (0::nat) < length [[1, 0, 0, 0 :: complex]]
   \<and> cpp_lib (example_device None) = None
   \<and> outcome (apply_hadamard_python [[1, 0, 0, 0]] 0 5 (int 2)) = Inl IndexError
   \<and> fst (apply_hadamard_python [[1, 0, 0, 0]] 0 5 (int 2)) ! 0 = [1, 0, 0, 0]
   \<and> outcome (apply_hadamard_cpp (example_device None) [[1, 0, 0, 0]] 0 5 (int 2)) = Inl IndexError
   \<and> fst (apply_hadamard_cpp (example_device None) [[1, 0, 0, 0]] 0 5 (int 2)) ! 0 = [1, 0, 0, 0]"
  using out_of_range_target_software
          [where s = "[[1, 0, 0, 0]]" and state = 0 and n = 2 and t = 5
             and dev = "example_device None"]
  by (simp add: example_device_def)

section \<open>The update is its own inverse\<close>

lemma sqrt2_inv_sq: "sqrt2_inv * sqrt2_inv = 1 / 2"
proof -
  have "sqrt2_inv * sqrt2_inv = complex_of_real ((1 / sqrt 2) * (1 / sqrt 2))"
    unfolding sqrt2_inv_def by (simp only: of_real_mult)
  also have "(1 / sqrt 2) * (1 / sqrt 2) = (1 / 2 :: real)" by simp
  finally show ?thesis by simp
qed

lemma h_plus: "sqrt2_inv * (sqrt2_inv * (x + y) + sqrt2_inv * (x - y)) = x"
proof -
  have "sqrt2_inv * (sqrt2_inv * (x + y) + sqrt2_inv * (x - y)) = (sqrt2_inv * sqrt2_inv) * (2 * x)"
    by (simp add: algebra_simps)
  then show ?thesis by (simp add: sqrt2_inv_sq)
qed

lemma h_minus: "sqrt2_inv * (sqrt2_inv * (x + y) - sqrt2_inv * (x - y)) = y"
proof -
  have "sqrt2_inv * (sqrt2_inv * (x + y) - sqrt2_inv * (x - y)) = (sqrt2_inv * sqrt2_inv) * (2 * y)"
    by (simp add: algebra_simps)
  then show ?thesis by (simp add: sqrt2_inv_sq)
qed

lemma length_hmap [simp]: "length (hmap t b) = length b"
  by (simp add: hmap_def)

lemma nth_hmap: "k < length b \<Longrightarrow> hmap t b ! k = hval t b k"
  by (simp add: hmap_def)

lemma hmap_hmap:
  assumes len: "length b = 2 ^ n" and t: "t < n"
  shows "hmap t (hmap t b) = b"
proof (rule nth_equalityI)
  show "length (hmap t (hmap t b)) = length b" by simp
next
  fix k
  assume "k < length (hmap t (hmap t b))"
  then have k: "k < 2 ^ n" using len by simp
  show "hmap t (hmap t b) ! k = b ! k"
  proof (cases "bit k t")
    case True
    let ?i = "k - 2 ^ t"
    have ge: "2 ^ t \<le> k" using True by (rule bit_ge)
    have i: "?i < length b" using k len by simp
    have ci: "\<not> bit ?i t" using True by (rule bit_sub)
    have sum_k: "?i + 2 ^ t = k" using ge by simp
    have "hmap t (hmap t b) ! k = sqrt2_inv * (hmap t b ! ?i - hmap t b ! k)"
      using k len True by (simp add: nth_hmap hval_def)
    also have "hmap t b ! ?i = sqrt2_inv * (b ! ?i + b ! k)"
      using i ci sum_k by (simp add: nth_hmap hval_def)
    also have "hmap t b ! k = sqrt2_inv * (b ! ?i - b ! k)"
      using k len True by (simp add: nth_hmap hval_def)
    finally show ?thesis by (simp add: h_minus)
  next
    case False
    let ?j = "k + 2 ^ t"
    have j: "?j < length b" using add_bound [OF k t False] len by simp
    have bj: "bit ?j t" using False by (rule bit_add)
    have "hmap t (hmap t b) ! k = sqrt2_inv * (hmap t b ! k + hmap t b ! ?j)"
      using k len False by (simp add: nth_hmap hval_def)
    also have "hmap t b ! k = sqrt2_inv * (b ! k + b ! ?j)"
      using k len False by (simp add: nth_hmap hval_def)
    also have "hmap t b ! ?j = sqrt2_inv * (b ! k - b ! ?j)"
      using j bj by (simp add: nth_hmap hval_def)
    finally show ?thesis by (simp add: h_plus)
  qed
qed

text \<open>
  C4. For a state of length \<open>2 ^ n\<close> and a target qubit \<open>t < n\<close>, applying the
  software path to the array it returned, with the same target, returns an array with
  the contents of the original one (exactly, over the reals).
\<close>

theorem hadamard_self_inverse:
  assumes "length (s ! state) = 2 ^ n" and "t < n"
  shows "\<exists>s1 r1 s2 r2.
           apply_hadamard_python s state (int t) (int n) = (s1, Inr r1)
           \<and> apply_hadamard_python s1 r1 (int t) (int n) = (s2, Inr r2)
           \<and> s2 ! r2 = s ! state"
proof -
  let ?b = "hmap t (s ! state)"
  let ?s1 = "s @ [?b]"
  have 1: "apply_hadamard_python s state (int t) (int n) = (?s1, Inr (length s))"
    using assms by (rule python_hmap)
  have b: "?s1 ! length s = ?b" by simp
  have lb: "length (?s1 ! length s) = 2 ^ n" using assms(1) by simp
  have 2: "apply_hadamard_python ?s1 (length s) (int t) (int n)
             = (?s1 @ [hmap t ?b], Inr (length ?s1))"
    using python_hmap [OF lb assms(2)] by simp
  have "(?s1 @ [hmap t ?b]) ! length ?s1 = s ! state"
    using hmap_hmap [OF assms] by (simp only: nth_append_length)
  with 1 2 show ?thesis by blast
qed

theorem hadamard_self_inverse_witness:
  "length ([[1, 0 :: complex]] ! 0) = 2 ^ 1 \<and> (0::nat) < 1
   \<and> (\<exists>s1 r1 s2 r2.
           apply_hadamard_python [[1, 0]] 0 (int 0) (int 1) = (s1, Inr r1)
           \<and> apply_hadamard_python s1 r1 (int 0) (int 1) = (s2, Inr r2)
           \<and> s2 ! r2 = [1, 0])"
  using hadamard_self_inverse [of "[[1, 0]]" 0 1 0] by simp

section \<open>The update preserves the norm\<close>

lemma norm_sq_sum: "norm_sq b = (\<Sum>k<length b. (cmod (b ! k))\<^sup>2)"
proof -
  have "norm_sq b = (\<Sum>k = 0..<length b. map (\<lambda>z. (cmod z)\<^sup>2) b ! k)"
    by (simp add: norm_sq_def sum_list_sum_nth)
  also have "\<dots> = (\<Sum>k = 0..<length b. (cmod (b ! k))\<^sup>2)"
    by (rule sum.cong) simp_all
  finally show ?thesis by (simp add: atLeast0LessThan)
qed

lemma cmod_sqrt2_inv_sq: "(cmod (sqrt2_inv * z))\<^sup>2 = (cmod z)\<^sup>2 / 2"
proof -
  have "cmod sqrt2_inv = 1 / sqrt 2"
    unfolding sqrt2_inv_def by (simp only: norm_of_real) simp
  then show ?thesis by (simp add: norm_mult power_mult_distrib power_divide)
qed

lemma parallelogram:
  "(cmod (sqrt2_inv * (x + y)))\<^sup>2 + (cmod (sqrt2_inv * (x - y)))\<^sup>2 = (cmod x)\<^sup>2 + (cmod y)\<^sup>2"
proof -
  have "(cmod (x + y))\<^sup>2 + (cmod (x - y))\<^sup>2 = 2 * ((cmod x)\<^sup>2 + (cmod y)\<^sup>2)"
    unfolding cmod_power2 by (simp add: power2_eq_square algebra_simps)
  then show ?thesis by (simp add: cmod_sqrt2_inv_sq add_divide_distrib [symmetric])
qed

lemma sum_pairs:
  assumes t: "t < n"
  shows "(\<Sum>k<2 ^ n. g k) = (\<Sum>k\<in>{k::nat. k < 2 ^ n \<and> \<not> bit k t}. g k + g (k + 2 ^ t) :: real)"
proof -
  let ?A = "{k::nat. k < 2 ^ n \<and> \<not> bit k t}" and ?B = "{k::nat. k < 2 ^ n \<and> bit k t}"
  have un: "{..<2 ^ n} = ?A \<union> ?B" by auto
  have dis: "?A \<inter> ?B = {}" by auto
  have fin: "finite ?A" "finite ?B" by simp_all
  have split: "sum g {..<2 ^ n} = sum g ?A + sum g ?B"
    unfolding un using fin dis by (rule sum.union_disjoint)
  have "sum g ?B = sum (\<lambda>k. g (k + 2 ^ t)) ?A"
  proof (rule sum.reindex_bij_witness [where i = "\<lambda>k. k + 2 ^ t" and j = "\<lambda>k. k - 2 ^ t"])
    fix a assume a: "a \<in> ?B"
    then have ge: "2 ^ t \<le> a" using bit_ge by simp
    then show "a - 2 ^ t + 2 ^ t = a" by simp
    show "a - 2 ^ t \<in> ?A" using a bit_sub [of a t] by (simp add: less_imp_diff_less)
    show "g (a - 2 ^ t + 2 ^ t) = g a" using ge by simp
  next
    fix b assume b: "b \<in> ?A"
    show "b + 2 ^ t - 2 ^ t = b" by simp
    show "b + 2 ^ t \<in> ?B" using b add_bound [of b n t] t bit_add [of b t] by simp
  qed
  with split show ?thesis by (simp add: sum.distrib)
qed

lemma norm_sq_hmap:
  assumes len: "length b = 2 ^ n" and t: "t < n"
  shows "norm_sq (hmap t b) = norm_sq b"
proof -
  let ?A = "{k::nat. k < 2 ^ n \<and> \<not> bit k t}"
  let ?f = "\<lambda>z::complex. (cmod z)\<^sup>2"
  have "norm_sq (hmap t b) = (\<Sum>k<2 ^ n. ?f (hmap t b ! k))"
    using len by (simp add: norm_sq_sum)
  also have "\<dots> = (\<Sum>k<2 ^ n. ?f (hval t b k))"
    using len by (intro sum.cong refl) (simp add: nth_hmap)
  also have "\<dots> = (\<Sum>k\<in>?A. ?f (hval t b k) + ?f (hval t b (k + 2 ^ t)))"
    using t by (rule sum_pairs)
  also have "\<dots> = (\<Sum>k\<in>?A. ?f (b ! k) + ?f (b ! (k + 2 ^ t)))"
  proof (rule sum.cong [OF refl])
    fix k assume "k \<in> ?A"
    then have c: "\<not> bit k t" by simp
    have s: "bit (k + 2 ^ t) t" using c by (rule bit_add)
    show "?f (hval t b k) + ?f (hval t b (k + 2 ^ t)) = ?f (b ! k) + ?f (b ! (k + 2 ^ t))"
      using c s by (simp add: hval_def parallelogram)
  qed
  also have "\<dots> = (\<Sum>k<2 ^ n. ?f (b ! k))"
    using t by (rule sum_pairs [symmetric])
  also have "\<dots> = norm_sq b" using len by (simp add: norm_sq_sum)
  finally show ?thesis .
qed

text \<open>
  C5. For a state of length \<open>2 ^ n\<close> and a target qubit \<open>t < n\<close>, the array the
  software path returns has the same sum of squared magnitudes as the input; a
  normalised state stays normalised (exactly, over the reals).
\<close>

theorem hadamard_preserves_norm:
  assumes "length (s ! state) = 2 ^ n" and "t < n"
  shows "\<exists>s' r. apply_hadamard_python s state (int t) (int n) = (s', Inr r)
           \<and> norm_sq (s' ! r) = norm_sq (s ! state)
           \<and> (norm_sq (s ! state) = 1 \<longrightarrow> norm_sq (s' ! r) = 1)"
proof -
  have "apply_hadamard_python s state (int t) (int n)
          = (s @ [hmap t (s ! state)], Inr (length s))"
    using assms by (rule python_hmap)
  moreover have "norm_sq ((s @ [hmap t (s ! state)]) ! length s) = norm_sq (s ! state)"
    using norm_sq_hmap [OF assms] by (simp only: nth_append_length)
  ultimately show ?thesis by simp
qed

theorem hadamard_preserves_norm_witness:
  "length ([[1, 0 :: complex]] ! 0) = 2 ^ 1 \<and> (0::nat) < 1 \<and> norm_sq ([[1, 0]] ! 0) = 1
   \<and> (\<exists>s' r. apply_hadamard_python [[1, 0]] 0 (int 0) (int 1) = (s', Inr r)
           \<and> norm_sq (s' ! r) = 1)"
proof -
  have n: "norm_sq ([[1, 0]] ! 0) = 1" by (simp add: norm_sq_def)
  show ?thesis
    using n hadamard_preserves_norm [of "[[1, 0]]" 0 1 0] by auto
qed

section \<open>Execution of a circuit\<close>

lemma cpp_conforms:
  assumes sw: "kernel_conforms dev" and len: "length (s ! a) = 2 ^ n" and t: "t < n"
  shows "apply_hadamard_cpp dev s a (int t) (int n) = (s @ [hmap t (s ! a)], Inr (length s))"
proof (cases "cpp_lib dev")
  case None
  then show ?thesis using python_hmap [OF len t] by (simp add: cpp_no_lib)
next
  case (Some f)
  note py = python_hmap [OF len t]
  show ?thesis
  proof (cases "kernel_call f dev (s ! a) (int t) (int n)")
    case Raised
    with Some py show ?thesis by (simp add: apply_hadamard_cpp_def)
  next
    case (Returned status out_real out_imag)
    show ?thesis
    proof (cases "status = 0")
      case True
      have "map (\<lambda>i. Complex (out_real ! i) (out_imag ! i)) [0..<length (s ! a)] = hmap t (s ! a)"
        using sw Some len t Returned True
        by (auto simp: kernel_conforms_def split: kernel_outcome.splits)
      with Some Returned True show ?thesis by (simp add: apply_hadamard_cpp_def alloc_def)
    next
      case False
      with Some Returned py show ?thesis by (simp add: apply_hadamard_cpp_def)
    qed
  qed
qed

lemma bit_low_half:
  assumes "\<not> bit (i::nat) k"
  shows "i < 2 ^ Suc k \<longleftrightarrow> i < 2 ^ k"
proof
  assume a: "i < 2 ^ Suc k"
  show "i < 2 ^ k"
  proof (rule ccontr)
    assume "\<not> i < 2 ^ k"
    then have "2 ^ k \<le> i" by simp
    then obtain d where d: "i = 2 ^ k + d" using le_Suc_ex by blast
    with a have "d < 2 ^ k" by simp
    then have "bit (2 ^ k + d) k" by (simp add: bit_iff_odd)
    then show False using assms d by simp
  qed
next
  assume "i < 2 ^ k"
  then show "i < 2 ^ Suc k" by simp
qed

lemma bit_high_half:
  assumes "bit (i::nat) k"
  shows "i < 2 ^ Suc k \<longleftrightarrow> i - 2 ^ k < 2 ^ k"
  using bit_ge [OF assms] by auto

lemma length_uniform_prefix [simp]: "length (uniform_prefix n k) = 2 ^ n"
  by (simp add: uniform_prefix_def)

lemma nth_uniform_prefix:
  "i < 2 ^ n \<Longrightarrow> uniform_prefix n k ! i = (if i < 2 ^ k then sqrt2_inv ^ k else 0)"
  by (simp add: uniform_prefix_def)

lemma hmap_uniform_prefix:
  assumes k: "k < n"
  shows "hmap k (uniform_prefix n k) = uniform_prefix n (Suc k)"
proof (rule nth_equalityI)
  show "length (hmap k (uniform_prefix n k)) = length (uniform_prefix n (Suc k))" by simp
next
  fix i
  assume "i < length (hmap k (uniform_prefix n k))"
  then have i: "i < 2 ^ n" by simp
  show "hmap k (uniform_prefix n k) ! i = uniform_prefix n (Suc k) ! i"
  proof (cases "bit i k")
    case True
    have ge: "2 ^ k \<le> i" using True by (rule bit_ge)
    have lo: "i - 2 ^ k < 2 ^ n" using i by simp
    show ?thesis
      using i lo ge True bit_high_half [OF True]
      by (simp add: nth_hmap hval_def nth_uniform_prefix)
  next
    case False
    have hi: "i + 2 ^ k < 2 ^ n" using add_bound [OF i k False] .
    show ?thesis
      using i hi False bit_low_half [OF False]
      by (simp add: nth_hmap hval_def nth_uniform_prefix)
  qed
qed

lemma execute_loop_uniform:
  assumes sw: "kernel_conforms dev"
  shows "k \<le> n \<Longrightarrow> s ! state = uniform_prefix n k \<Longrightarrow>
         \<exists>s' r. execute_loop dev (int n) [k..<n] s state = (s', Inr r)
                \<and> s' ! r = uniform_prefix n n"
proof (induction "n - k" arbitrary: k s state)
  case 0
  then show ?case by simp
next
  case (Suc d)
  then have k: "k < n" by simp
  have len: "length (s ! state) = 2 ^ n" using Suc.prems(2) by simp
  have step: "apply_hadamard_cpp dev s state (int k) (int n)
                = (s @ [uniform_prefix n (Suc k)], Inr (length s))"
    using cpp_conforms [OF sw len k] Suc.prems(2) hmap_uniform_prefix [OF k] by simp
  have "d = n - Suc k" using Suc.hyps(2) by simp
  moreover have "Suc k \<le> n" using k by simp
  moreover have "(s @ [uniform_prefix n (Suc k)]) ! length s = uniform_prefix n (Suc k)"
    by simp
  ultimately obtain s' r where
    "execute_loop dev (int n) [Suc k..<n] (s @ [uniform_prefix n (Suc k)]) (length s) = (s', Inr r)"
    "s' ! r = uniform_prefix n n"
    using Suc.hyps(1) by blast
  then show ?case using k step by (simp add: upt_conv_Cons)
qed

lemma uniform_prefix_0: "uniform_prefix n 0 = (replicate (2 ^ n) 0)[0 := 1]"
  by (rule nth_equalityI) (auto simp: nth_uniform_prefix nth_list_update)

lemma sqrt2_inv_power: "sqrt2_inv ^ n = complex_of_real (1 / sqrt (2 ^ n))"
  by (simp add: sqrt2_inv_def power_divide real_sqrt_power)

lemma uniform_prefix_full:
  "uniform_prefix n n = replicate (2 ^ n) (complex_of_real (1 / sqrt (2 ^ n)))"
  by (rule nth_equalityI) (simp_all add: nth_uniform_prefix sqrt2_inv_power)

lemma execute_start:
  "execute dev s =
     execute_loop dev (int (num_qubits_of dev)) [0..<num_qubits_of dev]
       (s @ [(replicate (2 ^ num_qubits_of dev) 0)[0 := 1]]) (length s)"
  by (simp add: execute_def alloc_def setitem_def Let_def)

lemma num_qubits_of_pos: "1 \<le> num_qubits_of dev"
  by (auto simp: num_qubits_of_def Suc_le_eq split: option.splits)

lemma sqrt2_inv_approx: "\<bar>1 / sqrt 2 - 70710678 / 100000000\<bar> < 1 / 10 ^ 6"
proof -
  have lo: "141421156 / 100000000 < sqrt 2"
    by (rule real_less_rsqrt) (simp add: power2_eq_square)
  have hi: "sqrt 2 < 141421556 / 100000000"
    by (rule real_less_lsqrt) (simp_all add: power2_eq_square)
  have e: "1 / sqrt 2 = sqrt 2 / 2"
    by (simp add: real_div_sqrt)
  show ?thesis unfolding e abs_less_iff using lo hi by (simp add: field_simps)
qed

text \<open>
  C6. \<open>execute\<close> allocates the basis state (amplitude 0 is 1, the others are 0, the
  length is \<open>2 ^ n\<close>) and applies the update to the qubits \<open>0, \<dots>, n - 1\<close> in
  order. With a device whose kernel conforms to the update (in particular on the
  software path) every amplitude of the result, amplitude 0 among them, is
  \<open>1 / sqrt (2 ^ n)\<close>, for every qubit count \<open>n \<ge> 1\<close>. For one qubit the result is
  \<open>[1 / sqrt 2, 1 / sqrt 2]\<close>, within \<open>10\<^sup>-\<^sup>6\<close> of 0.70710678; for two qubits it
  is \<open>[0.5, 0.5, 0.5, 0.5]\<close>.
\<close>

theorem execute_uniform_superposition:
  assumes "kernel_conforms dev"
  shows "execute dev s =
           execute_loop dev (int (num_qubits_of dev)) [0..<num_qubits_of dev]
             (s @ [(replicate (2 ^ num_qubits_of dev) 0)[0 := 1]]) (length s)
         \<and> outcome (execute dev s)
             = Inr (replicate (2 ^ num_qubits_of dev)
                      (complex_of_real (1 / sqrt (2 ^ num_qubits_of dev))))
         \<and> (num_qubits_of dev = 1 \<longrightarrow>
              outcome (execute dev s) = Inr [complex_of_real (1 / sqrt 2), complex_of_real (1 / sqrt 2)]
              \<and> \<bar>1 / sqrt 2 - 70710678 / 100000000\<bar> < 1 / 10 ^ 6)
         \<and> (num_qubits_of dev = 2 \<longrightarrow> outcome (execute dev s) = Inr [1 / 2, 1 / 2, 1 / 2, 1 / 2])"
proof -
  let ?n = "num_qubits_of dev"
  let ?s0 = "s @ [(replicate (2 ^ ?n) 0)[0 := 1]]"
  have "?s0 ! length s = uniform_prefix ?n 0" by (simp add: uniform_prefix_0)
  then obtain s' r where
    l: "execute_loop dev (int ?n) [0..<?n] ?s0 (length s) = (s', Inr r)"
    and r: "s' ! r = uniform_prefix ?n ?n"
    using execute_loop_uniform [OF assms, of 0 ?n ?s0 "length s"] by auto
  have o: "outcome (execute dev s) = Inr (replicate (2 ^ ?n) (complex_of_real (1 / sqrt (2 ^ ?n))))"
    using l r by (simp add: execute_start outcome_def uniform_prefix_full)
  have one: "outcome (execute dev s) = Inr [complex_of_real (1 / sqrt 2), complex_of_real (1 / sqrt 2)]"
    if "?n = 1"
    using o that by (simp add: numeral_2_eq_2)
  have two: "outcome (execute dev s) = Inr [1 / 2, 1 / 2, 1 / 2, 1 / 2]" if "?n = 2"
  proof -
    have "sqrt (2 ^ 2) = 2" by simp
    moreover have "replicate (2 ^ 2) x = [x, x, x, x]" for x :: complex
      by (simp add: numeral_eq_Suc)
    ultimately show ?thesis using o that by simp
  qed
  show ?thesis using o one two sqrt2_inv_approx by (simp add: execute_start)
qed

theorem execute_uniform_superposition_witness:
  "kernel_conforms (example_device None) \<and> num_qubits_of (example_device None) = 2
   \<and> outcome (execute (example_device None) []) = Inr [1 / 2, 1 / 2, 1 / 2, 1 / 2]
   \<and> kernel_conforms ((example_device (Some (status_kernel 1)))\<lparr>wires := Some [0]\<rparr>)
   \<and> num_qubits_of ((example_device (Some (status_kernel 1)))\<lparr>wires := Some [0]\<rparr>) = 1
   \<and> outcome (execute ((example_device (Some (status_kernel 1)))\<lparr>wires := Some [0]\<rparr>) [])
       = Inr [complex_of_real (1 / sqrt 2), complex_of_real (1 / sqrt 2)]"
proof -
  let ?d1 = "(example_device (Some (status_kernel 1)))\<lparr>wires := Some [0]\<rparr>"
  have sw: "kernel_conforms (example_device None)" and sw1: "kernel_conforms ?d1"
    by (simp_all add: kernel_conforms_def example_device_def status_kernel_def kernel_call_def
          Let_def)
  have n: "num_qubits_of (example_device None) = 2" and n1: "num_qubits_of ?d1 = 1"
    by (simp_all add: num_qubits_of_def example_device_def)
  have "outcome (execute (example_device None) []) = Inr [1 / 2, 1 / 2, 1 / 2, 1 / 2]"
    using execute_uniform_superposition [OF sw, of "[]"] n by blast
  moreover have "outcome (execute ?d1 [])
                   = Inr [complex_of_real (1 / sqrt 2), complex_of_real (1 / sqrt 2)]"
    using execute_uniform_superposition [OF sw1, of "[]"] n1 by blast
  ultimately show ?thesis using sw sw1 n n1 by blast
qed

section \<open>Construction of the device\<close>






lemma kernel_call_ignores_flag:
  "kernel_call f (dev\<lparr>use_fpga := b\<rparr>) amps t n = kernel_call f dev amps t n"
  by (simp add: kernel_call_def)

lemma cpp_ignores_flag:
  "apply_hadamard_cpp (dev\<lparr>use_fpga := b\<rparr>) s a t n = apply_hadamard_cpp dev s a t n"
  by (cases "cpp_lib dev") (simp_all add: apply_hadamard_cpp_def kernel_call_ignores_flag)





end
